theory Spec2Isabelle
  imports Main "HOL-Library.Multiset"
begin

section \<open>Board model (src/types/puzzle.ts, src/utils/puzzleUtils.ts)\<close>

text \<open>
  A board is the flat \<^verbatim>\<open>number[]\<close> of the source. Cells are integers; a valid board is a
  permutation of \<open>0..8\<close>, the blank being \<open>0\<close>. The source reads \<^verbatim>\<open>board[i]\<close> for
  \<open>i < 9\<close> without a length check (a shorter array yields \<^verbatim>\<open>undefined\<close> and then
  \<^verbatim>\<open>NaN\<close>); every statement below that depends on such a read is made for valid
  boards, whose nine cells are all in range.
\<close>

type_synonym board = "int list"

definition GOAL_STATE :: board where
  "GOAL_STATE = [1, 2, 3, 4, 5, 6, 7, 8, 0]"

definition valid_board :: "board \<Rightarrow> bool" where
  "valid_board b \<longleftrightarrow> mset b = mset [0, 1, 2, 3, 4, 5, 6, 7, 8]"

text \<open>The remainder operator \<^verbatim>\<open>%\<close> of JavaScript truncates towards zero.\<close>

definition js_rem :: "int \<Rightarrow> int \<Rightarrow> int" where
  "js_rem a b = sgn a * (\<bar>a\<bar> mod \<bar>b\<bar>)"

text \<open>The body of the loop of \<^verbatim>\<open>manhattanDistance\<close>: what cell \<open>i\<close> adds.\<close>

definition manhattan_cell :: "board \<Rightarrow> nat \<Rightarrow> int" where
  "manhattan_cell b i =
     (if b ! i \<noteq> 0 then
        (let targetRow = (b ! i - 1) div 3;
             targetCol = js_rem (b ! i - 1) 3;
             currentRow = int i div 3;
             currentCol = js_rem (int i) 3
         in \<bar>targetRow - currentRow\<bar> + \<bar>targetCol - currentCol\<bar>)
      else 0)"

definition manhattanDistance :: "board \<Rightarrow> int" where
  "manhattanDistance b = fold (\<lambda>i distance. distance + manhattan_cell b i) [0..<9] 0"

definition tilesOutOfPlace :: "board \<Rightarrow> int" where
  "tilesOutOfPlace b =
     fold (\<lambda>i count. if b ! i \<noteq> 0 \<and> b ! i \<noteq> GOAL_STATE ! i then count + 1 else count)
       [0..<9] 0"

text \<open>
  \<^verbatim>\<open>isSolvable\<close>: the two nested loops over the board without its blank.
  For an empty \<open>flatBoard\<close> the bound \<^verbatim>\<open>flatBoard.length - 1\<close> is \<open>-1\<close> and the outer
  loop does not run; the truncated subtraction on \<open>nat\<close> gives the same empty range.
\<close>

definition count_inversions :: "int list \<Rightarrow> nat" where
  "count_inversions flatBoard =
     fold (\<lambda>i inversions.
             fold (\<lambda>j inversions.
                     if flatBoard ! i > flatBoard ! j then inversions + 1 else inversions)
               [i + 1..<length flatBoard] inversions)
       [0..<length flatBoard - 1] 0"

definition isSolvable :: "board \<Rightarrow> bool" where
  "isSolvable b =
     (let flatBoard = filter (\<lambda>x. x \<noteq> 0) b;
          inversions = count_inversions flatBoard
      in inversions mod 2 = 0)"

text \<open>\<^verbatim>\<open>board.indexOf(0)\<close>: the first index holding the value, \<open>-1\<close> when there is none.\<close>

fun indexOf :: "int list \<Rightarrow> int \<Rightarrow> int" where
  "indexOf [] v = - 1"
| "indexOf (x # xs) v =
     (if x = v then 0 else (let r = indexOf xs v in if r = - 1 then - 1 else r + 1))"

definition getEmptyIndex :: "board \<Rightarrow> int" where
  "getEmptyIndex b = indexOf b 0"

text \<open>
  \<^verbatim>\<open>isGoalState\<close> is \<^verbatim>\<open>board.every((val, idx) => val === GOAL_STATE[idx])\<close>:
  every cell present must equal the goal's cell at its index; an index beyond the goal
  compares with \<^verbatim>\<open>undefined\<close> and fails.
\<close>

definition isGoalState :: "board \<Rightarrow> bool" where
  "isGoalState b =
     list_all (\<lambda>(val, idx). idx < length GOAL_STATE \<and> val = GOAL_STATE ! idx)
       (zip b [0..<length b])"

section \<open>Move generator\<close>

record Move =
  board :: board
  move :: string

definition directions :: "(int \<times> int \<times> string) list" where
  "directions = [(- 1, 0, ''UP''), (1, 0, ''DOWN''), (0, - 1, ''LEFT''), (0, 1, ''RIGHT'')]"

text \<open>
  The destructuring swap
  \<^verbatim>\<open>[newBoard[e], newBoard[s]] = [newBoard[s], newBoard[e]]\<close> on the copy of the board.
\<close>

definition swap_cells :: "board \<Rightarrow> nat \<Rightarrow> nat \<Rightarrow> board" where
  "swap_cells b e s = (b[e := b ! s])[s := b ! e]"

text \<open>
  The callback of \<^verbatim>\<open>directions.forEach\<close>: \<open>emptyIndex\<close>, \<open>row\<close> and \<open>col\<close> are the
  variables it closes over, \<open>moves\<close> the array it pushes to.
\<close>

definition try_direction ::
  "board \<Rightarrow> int \<Rightarrow> int \<Rightarrow> int \<Rightarrow> int \<times> int \<times> string \<Rightarrow> Move list \<Rightarrow> Move list" where
  "try_direction b emptyIndex row col = (\<lambda>(dr, dc, name) moves.
     (let newRow = row + dr; newCol = col + dc
      in if newRow \<ge> 0 \<and> newRow < 3 \<and> newCol \<ge> 0 \<and> newCol < 3 then
           (let swapIndex = newRow * 3 + newCol;
                newBoard = swap_cells b (nat emptyIndex) (nat swapIndex)
            in moves @ [\<lparr>board = newBoard, move = name\<rparr>])
         else moves))"

definition getValidMoves :: "board \<Rightarrow> Move list" where
  "getValidMoves b =
     (let emptyIndex = getEmptyIndex b;
          row = emptyIndex div 3;
          col = js_rem emptyIndex 3
      in fold (try_direction b emptyIndex row col) directions [])"

section \<open>Move generator on an explicit store\<close>

text \<open>
  \<^verbatim>\<open>getValidMoves\<close> receives a reference to the caller's array, copies it with
  \<^verbatim>\<open>[...board]\<close> and swaps two cells of the copy in place. Whether the caller's board
  survives depends on that copy, so the function is modelled a second time over a store
  of arrays: \<open>cells\<close> maps an address to the contents of the array allocated there and
  \<open>next_free\<close> is the next address to allocate. The function above is its abstraction;
  the two are proved to agree.
\<close>

record heap =
  cells :: "nat \<Rightarrow> board option"
  next_free :: nat

text \<open>\<^verbatim>\<open>[...board]\<close>: a new array with the contents of the array at \<open>a\<close>.\<close>

definition alloc_copy :: "heap \<Rightarrow> nat \<Rightarrow> heap \<times> nat" where
  "alloc_copy h a =
     (h\<lparr>cells := (cells h)(next_free h := cells h a), next_free := Suc (next_free h)\<rparr>,
      next_free h)"

definition load :: "heap \<Rightarrow> nat \<Rightarrow> nat \<Rightarrow> int" where
  "load h a i = the (cells h a) ! i"

definition store :: "heap \<Rightarrow> nat \<Rightarrow> nat \<Rightarrow> int \<Rightarrow> heap" where
  "store h a i v = h\<lparr>cells := (cells h)(a \<mapsto> (the (cells h a))[i := v])\<rparr>"

text \<open>
  The callback of \<^verbatim>\<open>forEach\<close> on the store: the right-hand side of the destructuring
  assignment is read first (\<open>x\<close>, \<open>y\<close>), then the two cells of \<open>newBoard\<close> are written.
\<close>

definition try_direction_heap ::
  "nat \<Rightarrow> int \<Rightarrow> int \<Rightarrow> int \<Rightarrow> int \<times> int \<times> string \<Rightarrow>
     heap \<times> (nat \<times> string) list \<Rightarrow> heap \<times> (nat \<times> string) list" where
  "try_direction_heap a emptyIndex row col = (\<lambda>(dr, dc, name) (h, moves).
     (let newRow = row + dr; newCol = col + dc
      in if newRow \<ge> 0 \<and> newRow < 3 \<and> newCol \<ge> 0 \<and> newCol < 3 then
           (let swapIndex = newRow * 3 + newCol;
                (h, newBoard) = alloc_copy h a;
                x = load h newBoard (nat swapIndex);
                y = load h newBoard (nat emptyIndex);
                h = store h newBoard (nat emptyIndex) x;
                h = store h newBoard (nat swapIndex) y
            in (h, moves @ [(newBoard, name)]))
         else (h, moves)))"

definition getValidMoves_heap :: "heap \<Rightarrow> nat \<Rightarrow> heap \<times> (nat \<times> string) list" where
  "getValidMoves_heap h a =
     (let emptyIndex = getEmptyIndex (the (cells h a));
          row = emptyIndex div 3;
          col = js_rem emptyIndex 3
      in fold (try_direction_heap a emptyIndex row col) directions (h, []))"

text \<open>The moves returned on the store, read back as values.\<close>

definition render_moves :: "heap \<Rightarrow> (nat \<times> string) list \<Rightarrow> Move list" where
  "render_moves h ms = map (\<lambda>(p, name). \<lparr>board = the (cells h p), move = name\<rparr>) ms"

section \<open>Genetic solver: individuals and fitness (src/algorithms/genetic.ts)\<close>

text \<open>
  The class \<^verbatim>\<open>Individual\<close>. \<open>finalDistance\<close> starts as \<^verbatim>\<open>Infinity\<close>, written \<open>None\<close>;
  all other numbers the class computes are integers. The constructor called with a
  chromosome is \<open>new_Individual\<close>.
\<close>

record Individual =
  moves :: "string list"
  fitness :: int
  path :: "board list"
  reachedGoal :: bool
  finalDistance :: "int option"

definition new_Individual :: "string list \<Rightarrow> Individual" where
  "new_Individual ms =
     \<lparr>moves = ms, fitness = 0, path = [], reachedGoal = False, finalDistance = None\<rparr>"

text \<open>The local variables of \<^verbatim>\<open>calculateFitness\<close>.\<close>

record fitness_locals =
  currentBoard :: board
  moveCount :: int
  minDistanceAchieved :: int
  progressScore :: int

datatype loop_exit = Continue | Break

text \<open>
  One iteration of \<^verbatim>\<open>for (const moveType of this.moves)\<close>. The state is the object
  (\<open>this\<close>: its \<open>path\<close> and \<open>reachedGoal\<close> are written) and the locals. Note that
  \<open>reachedGoal\<close> is only ever set, never cleared, by \<^verbatim>\<open>calculateFitness\<close>.
\<close>

definition replay_gene ::
  "string \<Rightarrow> Individual \<times> fitness_locals \<Rightarrow> (Individual \<times> fitness_locals) \<times> loop_exit" where
  "replay_gene moveType = (\<lambda>(this, l).
     if isGoalState (currentBoard l) then ((this\<lparr>reachedGoal := True\<rparr>, l), Break)
     else
       (case find (\<lambda>m. move m = moveType) (getValidMoves (currentBoard l)) of
          None \<Rightarrow> ((this, l), Continue)
        | Some matchingMove \<Rightarrow>
            (let l = l\<lparr>currentBoard := Move.board matchingMove\<rparr>;
                 this = this\<lparr>path := path this @ [currentBoard l]\<rparr>;
                 l = l\<lparr>moveCount := moveCount l + 1\<rparr>;
                 currentDistance = manhattanDistance (currentBoard l);
                 l = (if currentDistance < minDistanceAchieved l
                      then l\<lparr>minDistanceAchieved := currentDistance,
                             progressScore := progressScore l + 10\<rparr>
                      else l)
             in if isGoalState (currentBoard l)
                then ((this\<lparr>reachedGoal := True\<rparr>, l), Break)
                else ((this, l), Continue))))"

fun replay ::
  "string list \<Rightarrow> Individual \<times> fitness_locals \<Rightarrow> Individual \<times> fitness_locals" where
  "replay [] s = s"
| "replay (moveType # rest) s =
     (case replay_gene moveType s of
        (s', Break) \<Rightarrow> s'
      | (s', Continue) \<Rightarrow> replay rest s')"

text \<open>The statements of \<^verbatim>\<open>calculateFitness\<close> before the loop.\<close>

definition start_replay :: "board \<Rightarrow> Individual \<Rightarrow> Individual \<times> fitness_locals" where
  "start_replay initialBoard this =
     (let currentBoard = initialBoard
      in (this\<lparr>path := [currentBoard]\<rparr>,
          \<lparr>currentBoard = currentBoard, moveCount = 0,
           minDistanceAchieved = manhattanDistance currentBoard, progressScore = 0\<rparr>))"

definition calculateFitness :: "board \<Rightarrow> Individual \<Rightarrow> Individual" where
  "calculateFitness initialBoard this =
     (let (this, l) = replay (moves this) (start_replay initialBoard this);
          this = this\<lparr>finalDistance := Some (manhattanDistance (currentBoard l))\<rparr>;
          tilesWrong = tilesOutOfPlace (currentBoard l)
      in if reachedGoal this then this\<lparr>fitness := 10000 - moveCount l\<rparr>
         else this\<lparr>fitness := 1000 - the (finalDistance this) * 10 - tilesWrong * 5
                                  - moveCount l + progressScore l\<rparr>)"

section \<open>Notions of the specification\<close>

text \<open>
  An inversion of a sequence is a pair of positions \<open>i < j\<close> whose entries stand in
  decreasing order. This is the definition of the specification's glossary, written
  without reference to the loops of the code.
\<close>

definition inversion_pairs :: "int list \<Rightarrow> (nat \<times> nat) set" where
  "inversion_pairs xs = {(i, j). i < j \<and> j < length xs \<and> xs ! i > xs ! j}"

text \<open>Two cells of the 3 by 3 grid are adjacent when they are neighbours in a row or a column.\<close>

definition adjacent_cells :: "nat \<Rightarrow> nat \<Rightarrow> bool" where
  "adjacent_cells e s \<longleftrightarrow>
     e < 9 \<and> s < 9 \<and>
     (e div 3 = s div 3 \<and> (e mod 3 = s mod 3 + 1 \<or> s mod 3 = e mod 3 + 1) \<or>
      e mod 3 = s mod 3 \<and> (e div 3 = s div 3 + 1 \<or> s div 3 = e div 3 + 1))"

text \<open>
  A sequence of boards is a legal path when every board after the first is one of the
  boards \<open>getValidMoves\<close> produces from its predecessor.
\<close>

fun legal_path :: "board list \<Rightarrow> bool" where
  "legal_path [] = True"
| "legal_path [b] = True"
| "legal_path (b # c # rest) \<longleftrightarrow>
     c \<in> Move.board ` set (getValidMoves b) \<and> legal_path (c # rest)"

text \<open>
  The steps of a replay that achieve a new minimum of the Manhattan distance: the
  positions of the path whose board is strictly closer to the goal than every board
  before it.
\<close>

definition new_minimum_steps :: "board list \<Rightarrow> nat set" where
  "new_minimum_steps p =
     {k. 0 < k \<and> k < length p \<and>
         (\<forall>j<k. manhattanDistance (p ! k) < manhattanDistance (p ! j))}"

section \<open>Invariants used in the proofs\<close>

text \<open>
  The relation between the store-level run of \<open>getValidMoves_heap\<close> and the value-level
  run of \<open>getValidMoves\<close>, from the initial store \<open>h0\<close> with the input board at \<open>a\<close>.
\<close>

definition heap_sim ::
  "heap \<Rightarrow> nat \<Rightarrow> board \<Rightarrow> heap \<Rightarrow> (nat \<times> string) list \<Rightarrow> Move list \<Rightarrow> bool" where
  "heap_sim h0 a b h ms acc \<longleftrightarrow>
     cells h a = Some b \<and> next_free h0 \<le> next_free h \<and>
     (\<forall>p < next_free h0. cells h p = cells h0 p) \<and>
     (\<forall>p \<in> fst ` set ms. p < next_free h) \<and>
     render_moves h ms = acc"

text \<open>The loop invariant of the replay of \<^verbatim>\<open>calculateFitness\<close> from the board \<open>b\<close>.\<close>

definition replay_inv :: "board \<Rightarrow> Individual \<Rightarrow> fitness_locals \<Rightarrow> bool" where
  "replay_inv b this l \<longleftrightarrow>
     path this \<noteq> [] \<and> hd (path this) = b \<and> last (path this) = currentBoard l \<and>
     legal_path (path this) \<and> (\<forall>c \<in> set (path this). valid_board c) \<and>
     moveCount l = int (length (path this)) - 1 \<and>
     minDistanceAchieved l = Min (manhattanDistance ` set (path this)) \<and>
     progressScore l = 10 * int (card (new_minimum_steps (path this))) \<and>
     progressScore l + 10 * minDistanceAchieved l \<le> 10 * manhattanDistance b"

section \<open>Solvability test\<close>

lemma fold_count:
  "fold (\<lambda>j (c::nat). if P j then c + 1 else c) js c0 = c0 + length (filter P js)"
  by (induction js arbitrary: c0) auto

lemma fold_add_nat:
  "fold (\<lambda>i (c::nat). c + f i) is c0 = c0 + sum_list (map f is)"
  by (induction "is" arbitrary: c0) auto

lemma count_inversions_sum:
  "count_inversions xs =
     (\<Sum>i\<leftarrow>[0..<length xs - 1]. length (filter (\<lambda>j. xs ! i > xs ! j) [i + 1..<length xs]))"
  unfolding count_inversions_def fold_count
  by (simp add: fold_add_nat)

lemma inversion_pairs_Sigma:
  "inversion_pairs xs =
     (SIGMA i:{0..<length xs - 1}. {j \<in> {i + 1..<length xs}. xs ! i > xs ! j})"
  unfolding inversion_pairs_def by auto

lemma card_filter_upt:
  "card {j \<in> {a..<b}. P j} = length (filter P [a..<b])"
proof -
  have "{j \<in> {a..<b}. P j} = set (filter P [a..<b])" by auto
  then have "card {j \<in> {a..<b}. P j} = card (set (filter P [a..<b]))" by (rule arg_cong)
  also have "\<dots> = length (filter P [a..<b])" by (rule distinct_card) simp
  finally show ?thesis .
qed

lemma count_inversions_card: "count_inversions xs = card (inversion_pairs xs)"
proof -
  have "card (inversion_pairs xs) =
          (\<Sum>i\<in>{0..<length xs - 1}. card {j \<in> {i + 1..<length xs}. xs ! i > xs ! j})"
    unfolding inversion_pairs_Sigma by (rule card_SigmaI) auto
  also have "\<dots> = (\<Sum>i\<in>{0..<length xs - 1}.
                      length (filter (\<lambda>j. xs ! i > xs ! j) [i + 1..<length xs]))"
    by (simp only: card_filter_upt)
  also have "\<dots> = count_inversions xs"
    unfolding count_inversions_sum by (simp add: sum_list_distinct_conv_sum_set)
  finally show ?thesis by simp
qed

text \<open>
  C4. For every board that is a permutation of \<open>0..8\<close>, \<open>isSolvable\<close> is true exactly
  when the number of inversions among the non-zero cells, read in flat board order, is
  even.
\<close>

theorem isSolvable_iff_even_inversions:
  assumes "valid_board b"
  shows "isSolvable b \<longleftrightarrow> even (card (inversion_pairs (filter (\<lambda>x. x \<noteq> 0) b)))"
  unfolding isSolvable_def Let_def count_inversions_card
  by (simp add: even_iff_mod_2_eq_zero)

theorem isSolvable_iff_even_inversions_witness:
  "valid_board [1, 2, 3, 4, 5, 6, 8, 7, 0] \<and>
   (isSolvable [1, 2, 3, 4, 5, 6, 8, 7, 0] \<longleftrightarrow>
      even (card (inversion_pairs (filter (\<lambda>x. x \<noteq> 0) [1, 2, 3, 4, 5, 6, 8, 7, 0]))))"
proof -
  have v: "valid_board [1, 2, 3, 4, 5, 6, 8, 7, 0]"
    by (simp add: valid_board_def)
  show ?thesis
    using v isSolvable_iff_even_inversions [OF v] by blast
qed

section \<open>Move generator: proofs\<close>

lemma indexOf_absent: "v \<notin> set xs \<Longrightarrow> indexOf xs v = - 1"
  by (induction xs) auto

lemma indexOf_present:
  "v \<in> set xs \<Longrightarrow> 0 \<le> indexOf xs v \<and> nat (indexOf xs v) < length xs \<and> xs ! nat (indexOf xs v) = v"
  by (induction xs) (auto simp: Let_def nat_add_distrib)

lemma valid_board_length: "valid_board b \<Longrightarrow> length b = 9"
  unfolding valid_board_def by (drule arg_cong [where f = size]) simp

lemma valid_board_set: "valid_board b \<Longrightarrow> set b = {0, 1, 2, 3, 4, 5, 6, 7, 8}"
  unfolding valid_board_def by (drule arg_cong [where f = set_mset]) auto

lemma valid_board_distinct: "valid_board b \<Longrightarrow> distinct b"
  unfolding valid_board_def by (drule mset_eq_imp_distinct_iff) simp

lemma valid_board_blank:
  assumes "valid_board b"
  obtains e where "e < 9" "getEmptyIndex b = int e" "b ! e = 0" "length b = 9"
proof -
  have "0 \<in> set b" using valid_board_set [OF assms] by simp
  from indexOf_present [OF this] valid_board_length [OF assms]
  show ?thesis using that [of "nat (indexOf b 0)"] by (simp add: getEmptyIndex_def)
qed

lemma getValidMoves_blank:
  assumes "getEmptyIndex b = int e" and "e < 9"
  shows "getValidMoves b =
           (if 3 \<le> e then [\<lparr>board = swap_cells b e (e - 3), move = ''UP''\<rparr>] else []) @
           (if e < 6 then [\<lparr>board = swap_cells b e (e + 3), move = ''DOWN''\<rparr>] else []) @
           (if 0 < e mod 3 then [\<lparr>board = swap_cells b e (e - 1), move = ''LEFT''\<rparr>] else []) @
           (if e mod 3 < 2 then [\<lparr>board = swap_cells b e (e + 1), move = ''RIGHT''\<rparr>] else [])"
proof -
  from \<open>e < 9\<close> consider "e = 0" | "e = 1" | "e = 2" | "e = 3" | "e = 4" | "e = 5"
    | "e = 6" | "e = 7" | "e = 8" by linarith
  then show ?thesis
    by cases (simp_all add: getValidMoves_def try_direction_def directions_def js_rem_def Let_def assms(1) numeral_2_eq_2)
qed

lemma valid_board_swap:
  assumes "valid_board b" "e < 9" "s < 9"
  shows "valid_board (swap_cells b e s)"
  using assms mset_swap [of s b e] valid_board_length [OF assms(1)]
  by (simp add: valid_board_def swap_cells_def)

lemma getValidMoves_names:
  assumes "getEmptyIndex b = int e" and "e < 9"
  shows "map move (getValidMoves b) =
           filter (\<lambda>n. n \<in> set (map move (getValidMoves b))) [''UP'', ''DOWN'', ''LEFT'', ''RIGHT'']"
proof -
  from \<open>e < 9\<close> consider "e = 0" | "e = 1" | "e = 2" | "e = 3" | "e = 4" | "e = 5"
    | "e = 6" | "e = 7" | "e = 8" by linarith
  then show ?thesis
    by cases (simp_all add: getValidMoves_blank [OF assms])
qed

lemma getValidMoves_length:
  assumes "getEmptyIndex b = int e" and "e < 9"
  shows "length (getValidMoves b) =
           (if e \<in> {0, 2, 6, 8} then 2 else if e \<in> {1, 3, 5, 7} then 3 else 4)"
proof -
  from \<open>e < 9\<close> consider "e = 0" | "e = 1" | "e = 2" | "e = 3" | "e = 4" | "e = 5"
    | "e = 6" | "e = 7" | "e = 8" by linarith
  then show ?thesis
    by cases (simp_all add: getValidMoves_blank [OF assms])
qed

lemma adjacent_cells_cases:
  assumes "e < 9"
  shows "3 \<le> e \<Longrightarrow> adjacent_cells e (e - 3)"
    and "e < 6 \<Longrightarrow> adjacent_cells e (e + 3)"
    and "0 < e mod 3 \<Longrightarrow> adjacent_cells e (e - 1)"
    and "e mod 3 < 2 \<Longrightarrow> adjacent_cells e (e + 1)"
proof -
  from \<open>e < 9\<close> have e: "e = 0 \<or> e = 1 \<or> e = 2 \<or> e = 3 \<or> e = 4 \<or> e = 5 \<or> e = 6 \<or> e = 7 \<or> e = 8"
    by linarith
  show "3 \<le> e \<Longrightarrow> adjacent_cells e (e - 3)"
    using e by (elim disjE) (simp_all add: adjacent_cells_def)
  show "e < 6 \<Longrightarrow> adjacent_cells e (e + 3)"
    using e by (elim disjE) (simp_all add: adjacent_cells_def)
  show "0 < e mod 3 \<Longrightarrow> adjacent_cells e (e - 1)"
    using e by (elim disjE) (simp_all add: adjacent_cells_def)
  show "e mod 3 < 2 \<Longrightarrow> adjacent_cells e (e + 1)"
    using e by (elim disjE) (simp_all add: adjacent_cells_def)
qed

lemma getValidMoves_swap:
  assumes "getEmptyIndex b = int e" and "e < 9" and "m \<in> set (getValidMoves b)"
  shows "\<exists>s. adjacent_cells e s \<and> board m = swap_cells b e s"
  using assms(3) adjacent_cells_cases [OF assms(2)]
  unfolding getValidMoves_blank [OF assms(1,2)]
  by (auto split: if_splits)

lemma render_moves_frame:
  assumes "\<forall>p \<in> fst ` set ms. cells h' p = cells h p"
  shows "render_moves h' ms = render_moves h ms"
  using assms unfolding render_moves_def by (induction ms) auto

lemma try_direction_sim:
  assumes sim: "heap_sim h0 a b h ms acc" and a: "a < next_free h0"
  shows "case try_direction_heap a e row col d (h, ms) of
           (h', ms') \<Rightarrow> heap_sim h0 a b h' ms' (try_direction b e row col d acc)"
proof -
  obtain dr dc name where d: "d = (dr, dc, name)" by (cases d) auto
  let ?n = "next_free h"
  have an: "a \<noteq> ?n" and le: "next_free h0 \<le> ?n" and cb: "cells h a = Some b"
    using sim a unfolding heap_sim_def by auto
  show ?thesis
  proof (cases "row + dr \<ge> 0 \<and> row + dr < 3 \<and> col + dc \<ge> 0 \<and> col + dc < 3")
    case False
    have "try_direction_heap a e row col d (h, ms) = (h, ms)"
      unfolding d try_direction_heap_def Let_def prod.case using False by (rule if_not_P)
    moreover have "try_direction b e row col d acc = acc"
      unfolding d try_direction_def Let_def prod.case using False by (rule if_not_P)
    ultimately show ?thesis using sim by simp
  next
    case True
    let ?s = "nat ((row + dr) * 3 + (col + dc))"
    let ?nb = "swap_cells b (nat e) ?s"
    let ?h' = "h\<lparr>cells := (cells h)(?n \<mapsto> ?nb), next_free := Suc ?n\<rparr>"
    have step: "try_direction_heap a e row col d (h, ms) = (?h', ms @ [(?n, name)])"
      using True cb unfolding d try_direction_heap_def
      by (simp add: Let_def alloc_copy_def load_def store_def swap_cells_def)
    have pure: "try_direction b e row col d acc = acc @ [\<lparr>board = ?nb, move = name\<rparr>]"
      using True unfolding d try_direction_def by (simp add: Let_def)
    have old: "\<forall>p \<in> fst ` set ms. cells ?h' p = cells h p"
      using sim unfolding heap_sim_def by auto
    have r1: "render_moves ?h' (ms @ [(?n, name)]) =
                render_moves ?h' ms @ [\<lparr>board = ?nb, move = name\<rparr>]"
      by (simp add: render_moves_def)
    have r2: "render_moves ?h' ms = render_moves h ms"
      by (rule render_moves_frame [OF old])
    have r3: "render_moves h ms = acc"
      using sim unfolding heap_sim_def by blast
    have r: "render_moves ?h' (ms @ [(?n, name)]) = acc @ [\<lparr>board = ?nb, move = name\<rparr>]"
      unfolding r1 r2 r3 ..
    have c1: "cells ?h' a = Some b" using an cb by simp
    have c2: "next_free h0 \<le> next_free ?h'" using le by simp
    have c3: "\<forall>p < next_free h0. cells ?h' p = cells h0 p"
      using sim le unfolding heap_sim_def by auto
    have c4: "\<forall>p \<in> fst ` set (ms @ [(?n, name)]). p < next_free ?h'"
      using sim unfolding heap_sim_def by auto
    have "heap_sim h0 a b ?h' (ms @ [(?n, name)]) (acc @ [\<lparr>board = ?nb, move = name\<rparr>])"
      unfolding heap_sim_def using c1 c2 c3 c4 r by blast
    then show ?thesis unfolding step pure by simp
  qed
qed

lemma fold_try_direction_sim:
  assumes "heap_sim h0 a b h ms acc" and "a < next_free h0"
  shows "case fold (try_direction_heap a e row col) ds (h, ms) of
           (h', ms') \<Rightarrow> heap_sim h0 a b h' ms' (fold (try_direction b e row col) ds acc)"
  using assms
proof (induction ds arbitrary: h ms acc)
  case Nil
  then show ?case by simp
next
  case (Cons d ds)
  obtain h1 ms1 where s1: "try_direction_heap a e row col d (h, ms) = (h1, ms1)"
    by (cases "try_direction_heap a e row col d (h, ms)") auto
  from try_direction_sim [OF Cons.prems, of e row col d]
  have "heap_sim h0 a b h1 ms1 (try_direction b e row col d acc)"
    unfolding s1 by simp
  from Cons.IH [OF this Cons.prems(2)] show ?case by (simp add: s1)
qed

lemma getValidMoves_heap_refines:
  assumes "cells h a = Some b" and "a < next_free h"
  shows "case getValidMoves_heap h a of (h', ms) \<Rightarrow>
           cells h' a = Some b \<and> (\<forall>p < next_free h. cells h' p = cells h p) \<and>
           render_moves h' ms = getValidMoves b"
proof -
  have "heap_sim h a b h [] []"
    using assms by (simp add: heap_sim_def render_moves_def)
  from fold_try_direction_sim [OF this assms(2), of "getEmptyIndex b" "getEmptyIndex b div 3"
      "js_rem (getEmptyIndex b) 3" directions]
  show ?thesis
    unfolding getValidMoves_heap_def getValidMoves_def Let_def
    using assms(1) by (auto simp: heap_sim_def split: prod.splits)
qed



lemma getValidMoves_valid:
  assumes "valid_board b" and "m \<in> set (getValidMoves b)"
  shows "valid_board (Move.board m)"
proof -
  from valid_board_blank [OF assms(1)] obtain e where
    e: "e < 9" "getEmptyIndex b = int e" by blast
  from getValidMoves_swap [OF e(2,1) assms(2)] obtain s where
    "adjacent_cells e s" "Move.board m = swap_cells b e s" by blast
  then show ?thesis
    using valid_board_swap [OF assms(1) e(1), of s] by (simp add: adjacent_cells_def)
qed

text \<open>
  C5. For every valid board \<open>b\<close>, held in the store at an allocated address \<open>a\<close>:
  the blank is at \<open>e = getEmptyIndex b\<close>; the directions of the moves returned are those
  of \<open>UP, DOWN, LEFT, RIGHT\<close> that are available, in this order; there are 2 moves when
  the blank is in a corner, 3 on an edge and 4 in the centre; every returned board is a
  valid board and is \<open>b\<close> with the blank and one adjacent cell swapped; and the run on
  the store leaves the input array, and every array allocated before the call, as it
  was, returning the same moves in freshly allocated arrays.
\<close>

theorem getValidMoves_contract:
  assumes "valid_board b" and "cells h a = Some b" and "a < next_free h"
  shows "(let e = nat (getEmptyIndex b); ms = getValidMoves b
          in b ! e = 0 \<and>
             map move ms =
               filter (\<lambda>n. n \<in> set (map move ms)) [''UP'', ''DOWN'', ''LEFT'', ''RIGHT''] \<and>
             length ms = (if e \<in> {0, 2, 6, 8} then 2 else if e \<in> {1, 3, 5, 7} then 3 else 4) \<and>
             (\<forall>m \<in> set ms. valid_board (Move.board m) \<and>
                (\<exists>s. adjacent_cells e s \<and> Move.board m = swap_cells b e s)) \<and>
             (case getValidMoves_heap h a of
                (h', rs) \<Rightarrow> cells h' a = Some b \<and>
                            (\<forall>p < next_free h. cells h' p = cells h p) \<and>
                            render_moves h' rs = ms))"
proof -
  from valid_board_blank [OF assms(1)] obtain e where
    e: "e < 9" "getEmptyIndex b = int e" "b ! e = 0" by blast
  have n: "nat (getEmptyIndex b) = e" using e(2) by simp
  have c1: "map move (getValidMoves b) =
      filter (\<lambda>n. n \<in> set (map move (getValidMoves b))) [''UP'', ''DOWN'', ''LEFT'', ''RIGHT'']"
    by (rule getValidMoves_names [OF e(2,1)])
  have c2: "length (getValidMoves b) =
      (if e \<in> {0, 2, 6, 8} then 2 else if e \<in> {1, 3, 5, 7} then 3 else 4)"
    by (rule getValidMoves_length [OF e(2,1)])
  have c3: "\<forall>m \<in> set (getValidMoves b). valid_board (Move.board m) \<and>
      (\<exists>s. adjacent_cells e s \<and> Move.board m = swap_cells b e s)"
    using getValidMoves_valid [OF assms(1)] getValidMoves_swap [OF e(2,1)] by blast
  note c4 = getValidMoves_heap_refines [OF assms(2,3)]
  show ?thesis
    unfolding Let_def n using e(3) c1 c2 c3 c4 by blast
qed

theorem getValidMoves_contract_witness:
  "valid_board [1, 2, 3, 4, 0, 5, 6, 7, 8] \<and>
   length (getValidMoves [1, 2, 3, 4, 0, 5, 6, 7, 8]) = 4 \<and>
   map move (getValidMoves [1, 2, 3, 4, 0, 5, 6, 7, 8]) = [''UP'', ''DOWN'', ''LEFT'', ''RIGHT''] \<and>
   cells (fst (getValidMoves_heap
            \<lparr>cells = (\<lambda>_. None)(0 \<mapsto> [1, 2, 3, 4, 0, 5, 6, 7, 8]), next_free = 1\<rparr> 0)) 0
     = Some [1, 2, 3, 4, 0, 5, 6, 7, 8]"
proof -
  let ?b = "[1, 2, 3, 4, 0, 5, 6, 7, 8] :: board"
  let ?h = "\<lparr>cells = (\<lambda>_. None)(0 \<mapsto> ?b), next_free = 1\<rparr>"
  have v: "valid_board ?b" by (simp add: valid_board_def)
  have c: "cells ?h 0 = Some ?b" and n: "0 < next_free ?h" by simp_all
  have e: "nat (getEmptyIndex ?b) = 4" by (simp add: getEmptyIndex_def)
  have ms: "map move (getValidMoves ?b) = [''UP'', ''DOWN'', ''LEFT'', ''RIGHT'']"
    by code_simp
  from getValidMoves_contract [OF v c n]
  have "length (getValidMoves ?b) = 4 \<and> cells (fst (getValidMoves_heap ?h 0)) 0 = Some ?b"
    unfolding Let_def e by (auto split: prod.splits)
  with v ms show ?thesis by blast
qed

section \<open>Fitness evaluation: proofs\<close>

lemma isGoalState_iff:
  assumes "length b = 9"
  shows "isGoalState b \<longleftrightarrow> b = GOAL_STATE"
proof -
  have "isGoalState b \<longleftrightarrow> (\<forall>i<9. b ! i = GOAL_STATE ! i)"
    using assms unfolding isGoalState_def list_all_length
    by (auto simp: GOAL_STATE_def)
  also have "\<dots> \<longleftrightarrow> b = GOAL_STATE"
    using assms by (auto simp: list_eq_iff_nth_eq GOAL_STATE_def)
  finally show ?thesis .
qed

lemma fold_add_int:
  "fold (\<lambda>i (d::int). d + f i) is d0 = d0 + sum_list (map f is)"
  by (induction "is" arbitrary: d0) auto

lemma manhattanDistance_sum: "manhattanDistance b = (\<Sum>i\<leftarrow>[0..<9]. manhattan_cell b i)"
  unfolding manhattanDistance_def fold_add_int by simp

lemma manhattan_cell_nonneg: "0 \<le> manhattan_cell b i"
  unfolding manhattan_cell_def by (simp add: Let_def)

lemma manhattanDistance_nonneg: "0 \<le> manhattanDistance b"
  unfolding manhattanDistance_sum by (rule sum_list_nonneg) (auto simp: manhattan_cell_nonneg)

lemma js_rem_nonneg: "0 \<le> a \<Longrightarrow> js_rem a 3 = a mod 3"
  by (cases "a = 0") (simp_all add: js_rem_def)

lemma manhattan_cell_eq:
  assumes "1 \<le> v"
  shows "b ! i = v \<Longrightarrow> manhattan_cell b i =
           \<bar>(v - 1) div 3 - int i div 3\<bar> + \<bar>(v - 1) mod 3 - int i mod 3\<bar>"
  using assms by (simp add: manhattan_cell_def Let_def js_rem_nonneg)

lemma abs_diff_le_2:
  fixes x y :: int
  assumes "0 \<le> x" "x \<le> 2" "0 \<le> y" "y \<le> 2"
  shows "\<bar>x - y\<bar> \<le> 2"
  using assms by linarith

lemma manhattan_cell_le:
  assumes "valid_board b" and "i < 9"
  shows "manhattan_cell b i \<le> 4"
proof (cases "b ! i = 0")
  case True
  then show ?thesis by (simp add: manhattan_cell_def)
next
  case False
  have "b ! i \<in> set b" using assms valid_board_length by simp
  then have v: "1 \<le> b ! i" "b ! i \<le> 8" using valid_board_set [OF assms(1)] False by auto
  have r: "\<bar>(b ! i - 1) div 3 - int i div 3\<bar> \<le> 2"
    using v assms(2) by (intro abs_diff_le_2) auto
  have c: "\<bar>(b ! i - 1) mod 3 - int i mod 3\<bar> \<le> 2"
    by (intro abs_diff_le_2) auto
  show ?thesis
    unfolding manhattan_cell_eq [OF v(1) refl] using r c by linarith
qed

lemma manhattanDistance_le:
  assumes "valid_board b"
  shows "manhattanDistance b \<le> 36"
proof -
  have "(\<Sum>i\<leftarrow>[0..<9]. manhattan_cell b i) \<le> (\<Sum>i\<leftarrow>[0..<9]. 4)"
    by (rule sum_list_mono) (simp add: manhattan_cell_le [OF assms])
  then show ?thesis unfolding manhattanDistance_sum by (simp add: sum_list_triv)
qed

lemma fold_count_int:
  "fold (\<lambda>j (c::int). if P j then c + 1 else c) js c0 = c0 + int (length (filter P js))"
  by (induction js arbitrary: c0) auto

lemma tilesOutOfPlace_nonneg: "0 \<le> tilesOutOfPlace b"
  unfolding tilesOutOfPlace_def fold_count_int by simp

lemma legal_path_snoc:
  assumes "legal_path p" and "p \<noteq> []" and "c \<in> Move.board ` set (getValidMoves (last p))"
  shows "legal_path (p @ [c])"
  using assms by (induction p rule: legal_path.induct) auto

lemma new_minimum_steps_snoc:
  assumes "p \<noteq> []"
  shows "new_minimum_steps (p @ [c]) =
           new_minimum_steps p \<union>
           (if manhattanDistance c < Min (manhattanDistance ` set p) then {length p} else {})"
proof -
  have old: "\<And>k. k < length p \<Longrightarrow>
      k \<in> new_minimum_steps (p @ [c]) \<longleftrightarrow> k \<in> new_minimum_steps p"
    by (auto simp: new_minimum_steps_def nth_append)
  have "(\<forall>j<length p. manhattanDistance c < manhattanDistance (p ! j)) \<longleftrightarrow>
        manhattanDistance c < Min (manhattanDistance ` set p)"
    using assms by (auto simp: all_set_conv_all_nth)
  then have new: "length p \<in> new_minimum_steps (p @ [c]) \<longleftrightarrow>
      manhattanDistance c < Min (manhattanDistance ` set p)"
    using assms by (simp add: new_minimum_steps_def nth_append)
  have bound: "\<And>k. k \<in> new_minimum_steps (p @ [c]) \<Longrightarrow> k \<le> length p"
    and bound': "\<And>k. k \<in> new_minimum_steps p \<Longrightarrow> k < length p"
    by (auto simp: new_minimum_steps_def)
  show ?thesis
  proof (intro set_eqI iffI)
    fix k assume k: "k \<in> new_minimum_steps (p @ [c])"
    show "k \<in> new_minimum_steps p \<union>
           (if manhattanDistance c < Min (manhattanDistance ` set p) then {length p} else {})"
    proof (cases "k < length p")
      case True with k old show ?thesis by simp
    next
      case False with bound [OF k] have "k = length p" by simp
      with k new show ?thesis by simp
    qed
  next
    fix k assume k: "k \<in> new_minimum_steps p \<union>
           (if manhattanDistance c < Min (manhattanDistance ` set p) then {length p} else {})"
    show "k \<in> new_minimum_steps (p @ [c])"
    proof (cases "k \<in> new_minimum_steps p")
      case True with old bound' show ?thesis by simp
    next
      case False with k new show ?thesis by (simp split: if_splits)
    qed
  qed
qed

lemma finite_new_minimum_steps: "finite (new_minimum_steps p)"
  by (rule finite_subset [of _ "{..<length p}"]) (auto simp: new_minimum_steps_def)

lemma card_new_minimum_steps_snoc:
  assumes "p \<noteq> []"
  shows "card (new_minimum_steps (p @ [c])) =
           card (new_minimum_steps p) +
           (if manhattanDistance c < Min (manhattanDistance ` set p) then 1 else 0)"
proof -
  have "length p \<notin> new_minimum_steps p" by (simp add: new_minimum_steps_def)
  then show ?thesis
    unfolding new_minimum_steps_snoc [OF assms]
    by (simp add: finite_new_minimum_steps)
qed

lemma replay_invD:
  assumes "replay_inv b this l"
  shows "path this \<noteq> []" and "hd (path this) = b" and "last (path this) = currentBoard l"
    and "legal_path (path this)" and "\<forall>c \<in> set (path this). valid_board c"
    and "moveCount l = int (length (path this)) - 1"
    and "minDistanceAchieved l = Min (manhattanDistance ` set (path this))"
    and "progressScore l = 10 * int (card (new_minimum_steps (path this)))"
    and "progressScore l + 10 * minDistanceAchieved l \<le> 10 * manhattanDistance b"
  using assms unfolding replay_inv_def by blast+

lemma replay_inv_valid:
  assumes "replay_inv b this l"
  shows "valid_board (currentBoard l)"
proof -
  have "last (path this) \<in> set (path this)"
    by (rule last_in_set [OF replay_invD(1) [OF assms]])
  then show ?thesis
    using replay_invD(5) [OF assms] unfolding replay_invD(3) [OF assms] by blast
qed

lemma new_minimum_steps_single: "new_minimum_steps [b] = {}"
  by (auto simp: new_minimum_steps_def)

lemma replay_gene_inv:
  assumes inv: "replay_inv b this l"
    and step: "replay_gene g (this, l) = ((this', l'), x)"
  shows "replay_inv b this' l'"
proof (cases "isGoalState (currentBoard l)")
  case True
  with step have "this' = this\<lparr>reachedGoal := True\<rparr>" "l' = l"
    by (auto simp: replay_gene_def)
  with inv show ?thesis by (simp add: replay_inv_def)
next
  case ng: False
  show ?thesis
  proof (cases "find (\<lambda>m. move m = g) (getValidMoves (currentBoard l))")
    case None
    with ng step have "this' = this" "l' = l" by (auto simp: replay_gene_def)
    with inv show ?thesis by simp
  next
    case (Some m)
    let ?c = "Move.board m"
    let ?p = "path this"
    from Some have m: "m \<in> set (getValidMoves (currentBoard l))"
      by (auto simp: find_Some_iff)
    have p: "?p \<noteq> []" "last ?p = currentBoard l" and fin: "finite (manhattanDistance ` set ?p)"
      using inv by (auto simp: replay_inv_def)
    have cur: "valid_board (currentBoard l)" by (rule replay_inv_valid [OF inv])
    have vc: "valid_board ?c" by (rule getValidMoves_valid [OF cur m])
    have path': "path this' = ?p @ [?c]" and cur': "currentBoard l' = ?c"
      and mc': "moveCount l' = moveCount l + 1"
      and md': "minDistanceAchieved l' =
                 (if manhattanDistance ?c < minDistanceAchieved l then manhattanDistance ?c
                  else minDistanceAchieved l)"
      and ps': "progressScore l' =
                 (if manhattanDistance ?c < minDistanceAchieved l then progressScore l + 10
                  else progressScore l)"
      using step ng Some by (auto simp: replay_gene_def Let_def split: if_splits)
    have min_old: "minDistanceAchieved l = Min (manhattanDistance ` set ?p)"
      using inv by (simp add: replay_inv_def)
    have "Min (manhattanDistance ` set (?p @ [?c])) =
            min (manhattanDistance ?c) (Min (manhattanDistance ` set ?p))"
      using p(1) by (simp add: Min_insert)
    then have min_new: "minDistanceAchieved l' = Min (manhattanDistance ` set (path this'))"
      unfolding path' md' min_old by (simp add: min_def)
    have leg: "legal_path (path this')"
      unfolding path' using inv p m by (intro legal_path_snoc) (auto simp: replay_inv_def)
    have card': "progressScore l' = 10 * int (card (new_minimum_steps (path this')))"
      unfolding path' ps' card_new_minimum_steps_snoc [OF p(1)] min_old [symmetric]
      using inv by (simp add: replay_inv_def)
    have b0: "progressScore l + 10 * minDistanceAchieved l \<le> 10 * manhattanDistance b"
      by (rule replay_invD(9) [OF inv])
    have bound: "progressScore l' + 10 * minDistanceAchieved l' \<le> 10 * manhattanDistance b"
      unfolding ps' md' using b0 by (simp split: if_splits)
    show ?thesis
      unfolding replay_inv_def
      using inv p vc leg card' bound min_new mc' cur'
      by (auto simp: path' replay_inv_def)
  qed
qed

lemma replay_inv_preserved:
  assumes "replay_inv b this l" and "replay gs (this, l) = (this', l')"
  shows "replay_inv b this' l'"
  using assms
proof (induction gs arbitrary: this l)
  case Nil
  then show ?case by simp
next
  case (Cons g gs)
  obtain this1 l1 x where s: "replay_gene g (this, l) = ((this1, l1), x)"
    by (metis prod.exhaust)
  have inv1: "replay_inv b this1 l1" by (rule replay_gene_inv [OF Cons.prems(1) s])
  show ?case
  proof (cases x)
    case Continue
    with Cons.prems(2) s have "replay gs (this1, l1) = (this', l')" by simp
    from Cons.IH [OF inv1 this] show ?thesis .
  next
    case Break
    with Cons.prems(2) s inv1 show ?thesis by simp
  qed
qed

lemma start_replay_inv:
  assumes "valid_board b"
  shows "case start_replay b this of (this0, l0) \<Rightarrow>
           replay_inv b this0 l0 \<and> reachedGoal this0 = reachedGoal this \<and>
           moves this0 = moves this \<and> path this0 = [b] \<and> currentBoard l0 = b"
  using assms
  by (simp add: start_replay_def replay_inv_def new_minimum_steps_single)

text \<open>How the flag relates to the boards visited.\<close>

lemma replay_goal_flag:
  assumes "replay_inv b this l" and "\<not> reachedGoal this"
    and "gs \<noteq> [] \<or> currentBoard l \<noteq> GOAL_STATE"
    and "GOAL_STATE \<notin> set (butlast (path this))"
    and "replay gs (this, l) = (this', l')"
  shows "(reachedGoal this' \<longleftrightarrow> last (path this') = GOAL_STATE) \<and>
         GOAL_STATE \<notin> set (butlast (path this'))"
  using assms
proof (induction gs arbitrary: this l)
  case Nil
  then show ?case by (auto simp: replay_inv_def)
next
  case (Cons g gs)
  have p: "path this \<noteq> []" "last (path this) = currentBoard l"
    using Cons.prems(1) by (auto simp: replay_inv_def)
  have cur: "valid_board (currentBoard l)" by (rule replay_inv_valid [OF Cons.prems(1)])
  have goal_iff: "isGoalState (currentBoard l) \<longleftrightarrow> currentBoard l = GOAL_STATE"
    by (rule isGoalState_iff [OF valid_board_length [OF cur]])
  show ?case
  proof (cases "isGoalState (currentBoard l)")
    case True
    then have "replay (g # gs) (this, l) = (this\<lparr>reachedGoal := True\<rparr>, l)"
      by (simp add: replay_gene_def)
    with Cons.prems(5) have "this' = this\<lparr>reachedGoal := True\<rparr>" "l' = l" by auto
    with True goal_iff p Cons.prems(4) show ?thesis by simp
  next
    case ng: False
    have nopath: "GOAL_STATE \<notin> set (path this)"
      using Cons.prems(4) p ng goal_iff
      by (metis append_butlast_last_id in_set_butlast_appendI insert_iff list.set(2) 
           rotate1.simps(2) set_rotate1 empty_iff empty_set)
    show ?thesis
    proof (cases "find (\<lambda>m. move m = g) (getValidMoves (currentBoard l))")
      case None
      with ng Cons.prems(5) have r: "replay gs (this, l) = (this', l')"
        by (simp add: replay_gene_def)
      show ?thesis
        by (rule Cons.IH [OF Cons.prems(1,2) _ Cons.prems(4) r]) (use ng goal_iff in simp)
    next
      case (Some m)
      obtain this1 l1 x where s: "replay_gene g (this, l) = ((this1, l1), x)"
        by (metis prod.exhaust)
      have inv1: "replay_inv b this1 l1" by (rule replay_gene_inv [OF Cons.prems(1) s])
      have path1: "path this1 = path this @ [Move.board m]"
        and cur1: "currentBoard l1 = Move.board m"
        using s ng Some by (auto simp: replay_gene_def Let_def split: if_splits)
      have v1: "valid_board (currentBoard l1)" by (rule replay_inv_valid [OF inv1])
      have goal1: "isGoalState (currentBoard l1) \<longleftrightarrow> currentBoard l1 = GOAL_STATE"
        by (rule isGoalState_iff [OF valid_board_length [OF v1]])
      have bl: "GOAL_STATE \<notin> set (butlast (path this1))"
        unfolding path1 using nopath by simp
      show ?thesis
      proof (cases "isGoalState (Move.board m)")
        case True
        with s ng Some have "x = Break" "reachedGoal this1"
          by (auto simp: replay_gene_def Let_def split: if_splits)
        with Cons.prems(5) s have "this' = this1" "l' = l1" by auto
        with \<open>reachedGoal this1\<close> True goal1 cur1 path1 bl show ?thesis by simp
      next
        case False
        with s ng Some have x: "x = Continue" and r1: "reachedGoal this1 = reachedGoal this"
          by (auto simp: replay_gene_def Let_def split: if_splits)
        with Cons.prems(5) s have r: "replay gs (this1, l1) = (this', l')" by simp
        show ?thesis
          by (rule Cons.IH [OF inv1 _ _ bl r]) (use r1 Cons.prems(2) False goal1 cur1 in auto)
      qed
    qed
  qed
qed

lemma set_butlast_last: "p \<noteq> [] \<Longrightarrow> set p = insert (last p) (set (butlast p))"
  by (induction p) auto

lemma calculateFitness_unfold:
  assumes "replay (moves ind) (start_replay b ind) = (this', l)"
  shows "calculateFitness b ind =
           this'\<lparr>finalDistance := Some (manhattanDistance (currentBoard l)),
                  fitness := (if reachedGoal this' then 10000 - moveCount l
                              else 1000 - manhattanDistance (currentBoard l) * 10
                                   - tilesOutOfPlace (currentBoard l) * 5
                                   - moveCount l + progressScore l)\<rparr>"
  unfolding calculateFitness_def assms by (simp add: Let_def)

lemma replay_from_start:
  assumes v: "valid_board b" and r: "replay (moves ind) (start_replay b ind) = (this', l)"
  shows "replay_inv b this' l"
    and "\<not> reachedGoal ind \<Longrightarrow> moves ind \<noteq> [] \<or> b \<noteq> GOAL_STATE \<Longrightarrow>
           (reachedGoal this' \<longleftrightarrow> last (path this') = GOAL_STATE) \<and>
           GOAL_STATE \<notin> set (butlast (path this'))"
    and "\<not> reachedGoal ind \<Longrightarrow> reachedGoal this' \<Longrightarrow> last (path this') = GOAL_STATE"
proof -
  obtain this0 l0 where s: "start_replay b ind = (this0, l0)" by (metis prod.exhaust)
  from start_replay_inv [OF v, of ind] s have
    inv0: "replay_inv b this0 l0" and r0: "reachedGoal this0 = reachedGoal ind"
    and p0: "path this0 = [b]" and c0: "currentBoard l0 = b" by auto
  from r s have r': "replay (moves ind) (this0, l0) = (this', l)" by simp
  show "replay_inv b this' l" by (rule replay_inv_preserved [OF inv0 r'])
  have flag: "(reachedGoal this' \<longleftrightarrow> last (path this') = GOAL_STATE) \<and>
              GOAL_STATE \<notin> set (butlast (path this'))"
    if "\<not> reachedGoal ind" "moves ind \<noteq> [] \<or> b \<noteq> GOAL_STATE"
    by (rule replay_goal_flag [OF inv0 _ _ _ r']) (use that r0 p0 c0 in auto)
  then show "\<not> reachedGoal ind \<Longrightarrow> moves ind \<noteq> [] \<or> b \<noteq> GOAL_STATE \<Longrightarrow>
           (reachedGoal this' \<longleftrightarrow> last (path this') = GOAL_STATE) \<and>
           GOAL_STATE \<notin> set (butlast (path this'))" .
  show "last (path this') = GOAL_STATE" if n: "\<not> reachedGoal ind" and g: "reachedGoal this'"
  proof (cases "moves ind = []")
    case True
    with r' r0 n g show ?thesis by simp
  next
    case False
    with flag [OF n] g show ?thesis by simp
  qed
qed

text \<open>
  C2. For every valid initial board and every individual with a non-empty chromosome
  whose \<open>reachedGoal\<close> flag is still clear (as the constructor leaves it, and as it is
  whenever the solver evaluates an individual): after \<open>calculateFitness\<close>, with \<open>l\<close>
  the locals at the end of the replay, \<open>moveCount\<close> is the number of moves applied and
  \<open>progressScore\<close> is 10 times the number of steps that achieved a new minimum of the
  Manhattan distance; if the replay reached the goal then \<open>reachedGoal\<close> is set and
  \<open>fitness = 10000 - moveCount\<close>; otherwise \<open>reachedGoal\<close> is clear,
  \<open>fitness = 1000 - 10 * finalDistance - 5 * tilesOutOfPlace - moveCount + progressScore\<close>
  on the last board, and the fitness is below 10000.
\<close>

theorem calculateFitness_formula:
  assumes "valid_board b" and "\<not> reachedGoal ind" and "moves ind \<noteq> []"
  shows "case replay (moves ind) (start_replay b ind) of (this', l) \<Rightarrow>
           (let r = calculateFitness b ind; final = last (path r)
            in moveCount l = int (length (path r)) - 1 \<and>
               progressScore l = 10 * int (card (new_minimum_steps (path r))) \<and>
               (GOAL_STATE \<in> set (path r) \<longrightarrow>
                  reachedGoal r \<and> fitness r = 10000 - moveCount l) \<and>
               (GOAL_STATE \<notin> set (path r) \<longrightarrow>
                  \<not> reachedGoal r \<and>
                  finalDistance r = Some (manhattanDistance final) \<and>
                  fitness r = 1000 - 10 * manhattanDistance final - 5 * tilesOutOfPlace final
                                - moveCount l + progressScore l \<and>
                  fitness r < 10000))"
proof -
  obtain this' l where r: "replay (moves ind) (start_replay b ind) = (this', l)"
    by (metis prod.exhaust)
  note inv = replay_from_start(1) [OF assms(1) r]
  from replay_from_start(2) [OF assms(1) r assms(2)] assms(3)
  have flag: "reachedGoal this' \<longleftrightarrow> last (path this') = GOAL_STATE"
    and bl: "GOAL_STATE \<notin> set (butlast (path this'))" by auto
  let ?r = "calculateFitness b ind"
  note cf = calculateFitness_unfold [OF r]
  have path: "path ?r = path this'" and rg: "reachedGoal ?r = reachedGoal this'"
    unfolding cf by simp_all
  have ne: "path this' \<noteq> []" and last: "last (path this') = currentBoard l"
    by (rule replay_invD [OF inv])+
  have mem: "GOAL_STATE \<in> set (path this') \<longleftrightarrow> last (path this') = GOAL_STATE"
    by (subst set_butlast_last [OF ne]) (use bl in auto)
  have mc: "moveCount l = int (length (path this')) - 1"
    and ps: "progressScore l = 10 * int (card (new_minimum_steps (path this')))"
    and bound: "progressScore l + 10 * minDistanceAchieved l \<le> 10 * manhattanDistance b"
    and minD: "minDistanceAchieved l = Min (manhattanDistance ` set (path this'))"
    by (rule replay_invD [OF inv])+
  have "Min (manhattanDistance ` set (path this')) \<in> manhattanDistance ` set (path this')"
    using ne by (intro Min_in) auto
  then have "0 \<le> minDistanceAchieved l"
    unfolding minD using manhattanDistance_nonneg by auto
  with bound manhattanDistance_le [OF assms(1)] have ps_le: "progressScore l \<le> 360" by linarith
  have mc0: "0 \<le> moveCount l" unfolding mc using ne by (cases "path this'") auto
  have d0: "0 \<le> manhattanDistance (currentBoard l)" by (rule manhattanDistance_nonneg)
  have t0: "0 \<le> tilesOutOfPlace (currentBoard l)" by (rule tilesOutOfPlace_nonneg)
  have lt: "1000 - manhattanDistance (currentBoard l) * 10 - tilesOutOfPlace (currentBoard l) * 5
              - moveCount l + progressScore l < 10000"
    using ps_le mc0 d0 t0 by linarith
  have fd: "finalDistance ?r = Some (manhattanDistance (currentBoard l))"
    unfolding cf by simp
  have fit1: "fitness ?r = 10000 - moveCount l" if "reachedGoal this'"
    unfolding cf using that by simp
  have fit2: "fitness ?r = 1000 - 10 * manhattanDistance (currentBoard l)
                 - 5 * tilesOutOfPlace (currentBoard l) - moveCount l + progressScore l"
    if "\<not> reachedGoal this'"
    unfolding cf using that by simp
  have goal: "GOAL_STATE \<in> set (path ?r) \<longleftrightarrow> reachedGoal this'"
    unfolding path mem flag ..
  have c1: "moveCount l = int (length (path ?r)) - 1" unfolding path by (rule mc)
  have c2: "progressScore l = 10 * int (card (new_minimum_steps (path ?r)))"
    unfolding path by (rule ps)
  have c3: "GOAL_STATE \<in> set (path ?r) \<longrightarrow> reachedGoal ?r \<and> fitness ?r = 10000 - moveCount l"
    unfolding goal rg using fit1 by blast
  have c4: "GOAL_STATE \<notin> set (path ?r) \<longrightarrow>
              \<not> reachedGoal ?r \<and>
              finalDistance ?r = Some (manhattanDistance (last (path ?r))) \<and>
              fitness ?r = 1000 - 10 * manhattanDistance (last (path ?r))
                             - 5 * tilesOutOfPlace (last (path ?r))
                             - moveCount l + progressScore l \<and>
              fitness ?r < 10000"
  proof
    assume "GOAL_STATE \<notin> set (path ?r)"
    then have n: "\<not> reachedGoal this'" unfolding goal .
    have "fitness ?r < 10000" unfolding fit2 [OF n] using lt by linarith
    then show "\<not> reachedGoal ?r \<and>
              finalDistance ?r = Some (manhattanDistance (last (path ?r))) \<and>
              fitness ?r = 1000 - 10 * manhattanDistance (last (path ?r))
                             - 5 * tilesOutOfPlace (last (path ?r))
                             - moveCount l + progressScore l \<and>
              fitness ?r < 10000"
      unfolding rg path last using n fd fit2 [OF n] by blast
  qed
  show ?thesis
    unfolding r prod.case Let_def using c1 c2 c3 c4 by blast
qed

theorem calculateFitness_formula_witness:
  "valid_board [1, 2, 3, 4, 5, 6, 0, 7, 8] \<and>
   fitness (calculateFitness [1, 2, 3, 4, 5, 6, 0, 7, 8]
              (new_Individual [''UP'', ''RIGHT'', ''DOWN'', ''RIGHT'', ''RIGHT''])) = 941 \<and>
   fitness (calculateFitness [1, 2, 3, 4, 5, 6, 0, 7, 8]
              (new_Individual [''UP'', ''RIGHT'', ''DOWN'', ''RIGHT'', ''RIGHT''])) < 10000"
proof -
  let ?b = "[1, 2, 3, 4, 5, 6, 0, 7, 8] :: board"
  let ?i = "new_Individual [''UP'', ''RIGHT'', ''DOWN'', ''RIGHT'', ''RIGHT'']"
  have v: "valid_board ?b" by (simp add: valid_board_def)
  have f: "\<not> reachedGoal ?i" and m: "moves ?i \<noteq> []" by (simp_all add: new_Individual_def)
  have p: "GOAL_STATE \<notin> set (path (calculateFitness ?b ?i))" by code_simp
  have e: "fitness (calculateFitness ?b ?i) = 941" by code_simp
  from calculateFitness_formula [OF v f m] p
  have "fitness (calculateFitness ?b ?i) < 10000"
    by (auto simp: Let_def split: prod.splits)
  with v e show ?thesis by blast
qed

text \<open>
  C6. During the replay, at a board that is not the goal, a gene whose direction is
  not among the moves \<open>getValidMoves\<close> offers from the current board is skipped with no
  effect: the iteration returns the object and the locals unchanged (so the current
  board, the path and the move counter are unchanged) and asks the loop to continue,
  and the replay of the gene followed by the remaining genes is the replay of the
  remaining genes from the same state.
\<close>

theorem blocked_gene_skipped:
  assumes "\<not> isGoalState (currentBoard l)"
    and "moveType \<notin> move ` set (getValidMoves (currentBoard l))"
  shows "replay_gene moveType (this, l) = ((this, l), Continue) \<and>
         replay (moveType # rest) (this, l) = replay rest (this, l)"
proof -
  have "find (\<lambda>m. move m = moveType) (getValidMoves (currentBoard l)) = None"
    using assms(2) by (auto simp: find_None_iff)
  with assms(1) have "replay_gene moveType (this, l) = ((this, l), Continue)"
    by (simp add: replay_gene_def)
  then show ?thesis by simp
qed

theorem blocked_gene_skipped_witness:
  "\<not> isGoalState (currentBoard (snd (start_replay [0, 1, 2, 3, 4, 5, 6, 7, 8] (new_Individual [])))) \<and>
   ''UP'' \<notin> move ` set (getValidMoves
      (currentBoard (snd (start_replay [0, 1, 2, 3, 4, 5, 6, 7, 8] (new_Individual []))))) \<and>
   replay [''UP'', ''DOWN''] (start_replay [0, 1, 2, 3, 4, 5, 6, 7, 8] (new_Individual [])) =
   replay [''DOWN''] (start_replay [0, 1, 2, 3, 4, 5, 6, 7, 8] (new_Individual []))"
proof -
  let ?s = "start_replay [0, 1, 2, 3, 4, 5, 6, 7, 8] (new_Individual [])"
  have g: "\<not> isGoalState (currentBoard (snd ?s))" by code_simp
  have u: "''UP'' \<notin> move ` set (getValidMoves (currentBoard (snd ?s)))" by code_simp
  from blocked_gene_skipped [OF g u, of "fst ?s" "[''DOWN'']"]
  have "replay [''UP'', ''DOWN''] ?s = replay [''DOWN''] ?s" by simp
  with g u show ?thesis by blast
qed

text \<open>
  C10. For every valid initial board and every chromosome, after \<open>calculateFitness\<close>
  on the individual constructed from the chromosome: the path is non-empty, starts with
  the initial board, each board of the path after the first is one of the boards
  \<open>getValidMoves\<close> produces from its predecessor, and if \<open>reachedGoal\<close> is set then the
  path ends with the goal state.
\<close>

theorem calculateFitness_path:
  assumes "valid_board b"
  shows "(let r = calculateFitness b (new_Individual ms)
          in path r \<noteq> [] \<and> hd (path r) = b \<and> legal_path (path r) \<and>
             (reachedGoal r \<longrightarrow> last (path r) = GOAL_STATE))"
proof -
  let ?ind = "new_Individual ms"
  obtain this' l where r: "replay (moves ?ind) (start_replay b ?ind) = (this', l)"
    by (metis prod.exhaust)
  note inv = replay_from_start(1) [OF assms r]
  have fresh: "\<not> reachedGoal ?ind" by (simp add: new_Individual_def)
  note cf = calculateFitness_unfold [OF r]
  have path: "path (calculateFitness b ?ind) = path this'"
    and rg: "reachedGoal (calculateFitness b ?ind) = reachedGoal this'"
    unfolding cf by simp_all
  show ?thesis
    unfolding Let_def path rg
    using replay_invD(1,2,4) [OF inv] replay_from_start(3) [OF assms r fresh] by blast
qed

theorem calculateFitness_path_witness:
  "valid_board [1, 2, 3, 4, 5, 6, 7, 0, 8] \<and>
   reachedGoal (calculateFitness [1, 2, 3, 4, 5, 6, 7, 0, 8]
                  (new_Individual [''UP'', ''DOWN'', ''RIGHT'', ''RIGHT''])) \<and>
   last (path (calculateFitness [1, 2, 3, 4, 5, 6, 7, 0, 8]
                 (new_Individual [''UP'', ''DOWN'', ''RIGHT'', ''RIGHT'']))) = GOAL_STATE \<and>
   legal_path (path (calculateFitness [1, 2, 3, 4, 5, 6, 7, 0, 8]
                       (new_Individual [''UP'', ''DOWN'', ''RIGHT'', ''RIGHT''])))"
proof -
  let ?b = "[1, 2, 3, 4, 5, 6, 7, 0, 8] :: board"
  let ?ms = "[''UP'', ''DOWN'', ''RIGHT'', ''RIGHT'']"
  have v: "valid_board ?b" by (simp add: valid_board_def)
  have r: "reachedGoal (calculateFitness ?b (new_Individual ?ms))" by code_simp
  from calculateFitness_path [OF v, of ?ms] r
  have "last (path (calculateFitness ?b (new_Individual ?ms))) = GOAL_STATE \<and>
        legal_path (path (calculateFitness ?b (new_Individual ?ms)))"
    by (simp add: Let_def)
  with v r show ?thesis by blast
qed

end
